theory Spec2Isabelle
  imports Main
begin

section \<open>Strings of the source language\<close>

text \<open>
  A Python \<open>str\<close> is a sequence of code points. The model uses \<open>string\<close>, whose
  characters are the 256 code points of Latin-1; the whitespace and case tables below are
  Python's, restricted to that range.
\<close>

definition isspace :: "char \<Rightarrow> bool" where
  \<comment> \<open>\<open>str.isspace\<close> on one character: TAB, LF, VT, FF, CR, FS, GS, RS, US, SPACE, NEL, NBSP.\<close>
  "isspace c = (of_char c \<in> {9, 10, 11, 12, 13, 28, 29, 30, 31, 32, 133, 160 :: nat})"

definition rstrip :: "string \<Rightarrow> string" where
  "rstrip s = rev (dropWhile isspace (rev s))"

definition strip :: "string \<Rightarrow> string" where
  "strip s = dropWhile isspace (rstrip s)"

definition strip_chars :: "string \<Rightarrow> string \<Rightarrow> string" where
  \<comment> \<open>\<open>s.strip(chars)\<close>\<close>
  "strip_chars s chars =
     dropWhile (\<lambda>c. c \<in> set chars) (rev (dropWhile (\<lambda>c. c \<in> set chars) (rev s)))"

definition startswith :: "string \<Rightarrow> string \<Rightarrow> bool" where
  "startswith s p = (take (length p) s = p)"

fun contains :: "string \<Rightarrow> string \<Rightarrow> bool" where
  \<comment> \<open>\<open>sub in s\<close>\<close>
  "contains sub [] = (sub = [])"
| "contains sub (c # cs) = (startswith (c # cs) sub \<or> contains sub cs)"

primrec split :: "string \<Rightarrow> char \<Rightarrow> string list" where
  \<comment> \<open>\<open>s.split(sep)\<close> for a separator of one character; the result is never empty\<close>
  "split [] sep = [[]]"
| "split (c # cs) sep =
     (if c = sep then [] # split cs sep
      else (case split cs sep of [] \<Rightarrow> [[c]] | l # ls \<Rightarrow> (c # l) # ls))"

primrec replace :: "string \<Rightarrow> char \<Rightarrow> string \<Rightarrow> string" where
  \<comment> \<open>\<open>s.replace(old, new)\<close> for \<open>old\<close> of one character\<close>
  "replace [] old new = []"
| "replace (c # cs) old new = (if c = old then new else [c]) @ replace cs old new"

definition lower_char :: "char \<Rightarrow> char" where
  "lower_char c =
     (let n = (of_char c :: nat)
      in if (65 \<le> n \<and> n \<le> 90) \<or> (192 \<le> n \<and> n \<le> 222 \<and> n \<noteq> 215)
         then char_of (n + 32) else c)"

definition lower :: "string \<Rightarrow> string" where
  "lower s = map lower_char s"

definition upper_char :: "char \<Rightarrow> string" where
  \<comment> \<open>The sharp s becomes \<open>SS\<close>. The upper-case forms of the micro sign and of y with
      diaeresis lie outside Latin-1; the model leaves these two characters as they are.\<close>
  "upper_char c =
     (let n = (of_char c :: nat)
      in if (97 \<le> n \<and> n \<le> 122) \<or> (224 \<le> n \<and> n \<le> 254 \<and> n \<noteq> 247)
         then [char_of (n - 32)]
         else if n = 223 then ''SS'' else [c])"

definition upper :: "string \<Rightarrow> string" where
  "upper s = concat (map upper_char s)"

section \<open>Regular expressions of the program\<close>

text \<open>
  A pattern is modelled by its matcher at the start of a string: the captured groups and
  the number of characters matched, as Python's backtracking matcher finds them. None of
  the program's patterns matches the empty string.
\<close>

type_synonym pattern = "string \<Rightarrow> (string list \<times> nat) option"

definition chomp :: "string \<Rightarrow> string" where
  \<comment> \<open>\<open>$\<close> matches at the end of the string and before a newline that ends it.\<close>
  "chomp s = (if s \<noteq> [] \<and> last s = CHR 0x0A then butlast s else s)"

definition rule_re :: "string \<Rightarrow> bool" where
  \<comment> \<open>\<open>re.match(r'^-{3,}$', s)\<close>\<close>
  "rule_re s = (3 \<le> length (chomp s) \<and> list_all (\<lambda>c. c = CHR ''-'') (chomp s))"

definition company_re :: "string \<Rightarrow> bool" where
  \<comment> \<open>\<open>re.match(r'^\*\*[^*]+\*\*', s)\<close>\<close>
  "company_re s =
     (startswith s ''**''
      \<and> takeWhile (\<lambda>c. c \<noteq> CHR ''*'') (drop 2 s) \<noteq> []
      \<and> startswith (dropWhile (\<lambda>c. c \<noteq> CHR ''*'') (drop 2 s)) ''**'')"

definition subtitle_re :: "string \<Rightarrow> string option" where
  \<comment> \<open>\<open>re.match(r'^\*\*(.+)\*\*$', s)\<close>, with group 1\<close>
  "subtitle_re s =
     (let t = chomp s; inner = take (length t - 4) (drop 2 t)
      in if 5 \<le> length t \<and> startswith t ''**'' \<and> drop (length t - 2) t = ''**''
            \<and> CHR 0x0A \<notin> set inner
         then Some inner else None)"

definition italic_re :: "string \<Rightarrow> bool" where
  \<comment> \<open>\<open>re.match(r'^\*[^*]+\*$', s)\<close>\<close>
  "italic_re s =
     (let t = chomp s
      in 3 \<le> length t \<and> hd t = CHR ''*'' \<and> last t = CHR ''*''
         \<and> CHR ''*'' \<notin> set (butlast (tl t)))"

definition link_re :: pattern where
  \<comment> \<open>\<open>\[([^\]]+)\]\(([^)]+)\)\<close>: both groups are maximal runs, there is no other way to match\<close>
  \<open>link_re s =
     (if startswith s ''[''
      then let label = takeWhile (\<lambda>c. c \<noteq> CHR '']'') (tl s);
               r = dropWhile (\<lambda>c. c \<noteq> CHR '']'') (tl s);
               url = takeWhile (\<lambda>c. c \<noteq> CHR '')'') (drop 2 r);
               r' = dropWhile (\<lambda>c. c \<noteq> CHR '')'') (drop 2 r)
           in if label \<noteq> [] \<and> startswith r ''](''  \<and> url \<noteq> [] \<and> startswith r' '')''
              then Some ([label, url], length label + length url + 4)
              else None
      else None)\<close>

fun lazy_until :: "string \<Rightarrow> string \<Rightarrow> string option" where
  \<comment> \<open>\<open>(.+?)\<close> followed by the literal \<open>d\<close>: the shortest non-empty run without a
      newline after which \<open>d\<close> stands\<close>
  "lazy_until d [] = None"
| "lazy_until d (c # cs) =
     (if c = CHR 0x0A then None
      else if startswith cs d then Some [c]
      else map_option ((#) c) (lazy_until d cs))"

definition bold_re :: pattern where
  \<comment> \<open>\<open>\*\*(.+?)\*\*\<close>\<close>
  "bold_re s =
     (if startswith s ''**''
      then map_option (\<lambda>g. ([g], length g + 4)) (lazy_until ''**'' (drop 2 s))
      else None)"

definition em_re :: pattern where
  \<comment> \<open>\<open>\*(.+?)\*\<close>\<close>
  "em_re s =
     (if startswith s ''*''
      then map_option (\<lambda>g. ([g], length g + 2)) (lazy_until ''*'' (drop 1 s))
      else None)"

definition amp_re :: pattern where
  \<comment> \<open>\<open>&(?!amp;|lt;|gt;|quot;|#)\<close>\<close>
  "amp_re s =
     (if startswith s ''&''
         \<and> \<not> (startswith (tl s) ''amp;'' \<or> startswith (tl s) ''lt;''
               \<or> startswith (tl s) ''gt;'' \<or> startswith (tl s) ''quot;''
               \<or> startswith (tl s) ''#'')
      then Some ([], 1) else None)"

function re_sub :: "pattern \<Rightarrow> (string list \<Rightarrow> string) \<Rightarrow> string \<Rightarrow> string" where
  \<comment> \<open>\<open>re.sub(pattern, repl, s)\<close>: the leftmost matches, none overlapping\<close>
  "re_sub pat repl [] = []"
| "re_sub pat repl (c # cs) =
     (case pat (c # cs) of
        None \<Rightarrow> c # re_sub pat repl cs
      | Some (groups, n) \<Rightarrow> repl groups @ re_sub pat repl (drop (n - 1) cs))"
  by pat_completeness auto
termination
  by (relation "measure (\<lambda>(pat, repl, s). length s)") auto

section \<open>The inline normalizer\<close>

definition THEME_accent :: string where
  "THEME_accent = ''#2d6a8f''"

definition link_repl :: "string list \<Rightarrow> string" where
  \<open>link_repl g = ''<a href="'' @ g ! 1 @ ''" color="'' @ THEME_accent @ ''">'' @ g ! 0 @ ''</a>''\<close>

definition bold_repl :: "string list \<Rightarrow> string" where
  "bold_repl g = ''<b>'' @ g ! 0 @ ''</b>''"

definition em_repl :: "string list \<Rightarrow> string" where
  "em_repl g = ''<i>'' @ g ! 0 @ ''</i>''"

definition amp_repl :: "string list \<Rightarrow> string" where
  "amp_repl g = ''&amp;''"

definition md_inline :: "string \<Rightarrow> string" where
  "md_inline text =
     re_sub amp_re amp_repl
       (re_sub em_re em_repl
         (re_sub bold_re bold_repl
           (re_sub link_re link_repl text)))"

section \<open>The line classifier\<close>

datatype style =
  Name | Subtitle | Contact | Section | Role | Company | Body | Bullet | Italic_label | Skills

datatype flowable =
  Paragraph string style
| Hr
| Thick_hr

text \<open>
  \<open>Paragraph text styles[key]\<close> is kept as the text and the key of the style;
  \<open>Hr\<close> and \<open>Thick_hr\<close> are the results of the local functions \<open>hr()\<close> and
  \<open>thick_hr()\<close>, the thin rule (thickness 0.3) and the thick one (thickness 0.5).
\<close>

datatype error = IndexError | AttributeError

definition getitem :: "'a list \<Rightarrow> nat \<Rightarrow> error + 'a" where
  \<comment> \<open>\<open>xs[i]\<close> for \<open>i \<ge> 0\<close>\<close>
  "getitem xs i = (if i < length xs then Inr (xs ! i) else Inl IndexError)"

function bullet_continuation :: "string list \<Rightarrow> nat \<Rightarrow> string \<Rightarrow> error + (nat \<times> string)" where
  \<comment> \<open>the inner loop of the bullet rule, from the state \<open>(i, text)\<close> to the state it leaves\<close>
  "bullet_continuation lines i text =
     (if i + 1 < length lines
      then (case getitem lines (i + 1) of
              Inl e \<Rightarrow> Inl e
            | Inr nxt \<Rightarrow>
                if startswith nxt ''  '' \<and> \<not> startswith (strip nxt) ''- ''
                then bullet_continuation lines (i + 1) (text @ '' '' @ strip nxt)
                else Inr (i, text))
      else Inr (i, text))"
  by pat_completeness auto
termination
  by (relation "measure (\<lambda>(lines, i, text). length lines - i)") auto

function body_continuation :: "string list \<Rightarrow> nat \<Rightarrow> string \<Rightarrow> error + (nat \<times> string)" where
  \<comment> \<open>the inner loop of the default rule, from the state \<open>(i, para_text)\<close>\<close>
  "body_continuation lines i para_text =
     (if i + 1 < length lines
      then (case getitem lines (i + 1) of
              Inl e \<Rightarrow> Inl e
            | Inr nxt \<Rightarrow>
                if strip nxt \<noteq> [] \<and> \<not> startswith nxt ''#'' \<and> \<not> startswith nxt ''- ''
                   \<and> \<not> rule_re nxt \<and> \<not> startswith nxt ''**''
                then body_continuation lines (i + 1) (para_text @ '' '' @ strip nxt)
                else Inr (i, para_text))
      else Inr (i, para_text))"
  by pat_completeness auto
termination
  by (relation "measure (\<lambda>(lines, i, text). length lines - i)") auto

definition contact_repl :: "string list \<Rightarrow> string" where
  \<comment> \<open>\<open>r'\1'\<close>; the pattern of the contact rule has the matches of \<open>link_re\<close> and
      groups the label only\<close>
  "contact_repl g = g ! 0"

type_synonym cursor = "nat \<times> bool \<times> string option"
  \<comment> \<open>\<open>i\<close>, \<open>is_header_done\<close>, \<open>current_section\<close>\<close>

definition step :: "string list \<Rightarrow> cursor \<Rightarrow> error + (flowable option \<times> cursor)" where
  \<comment> \<open>one turn of the main loop, entered with \<open>i < len(lines)\<close>: the flowable appended to
      the story, if any, and the variables at the end of the turn\<close>
  \<open>step lines cur =
     (case cur of (i, is_header_done, current_section) \<Rightarrow>
      (case getitem lines i of
        Inl e \<Rightarrow> Inl e
      | Inr raw \<Rightarrow>
          let line = rstrip raw in
          if line = [] then Inr (None, i + 1, is_header_done, current_section)
          else if rule_re line then
            (if \<not> is_header_done
             then Inr (Some Thick_hr, i + 1, True, current_section)
             else Inr (Some Hr, i + 1, is_header_done, current_section))
          else if startswith line ''# '' \<and> \<not> startswith line ''## '' then
            Inr (Some (Paragraph (md_inline (strip (drop 2 line))) Name),
                 i + 1, is_header_done, current_section)
          else if startswith line ''## '' then
            Inr (Some (Paragraph (upper (strip (drop 3 line))) Section),
                 i + 1, is_header_done, Some (strip (drop 3 line)))
          else if startswith line ''### '' then
            Inr (Some (Paragraph (md_inline (strip (drop 4 line))) Role),
                 i + 1, is_header_done, current_section)
          else if company_re line \<and> CHR ''|'' \<in> set line then
            Inr (Some (Paragraph (md_inline line) Company),
                 i + 1, is_header_done, current_section)
          else if subtitle_re line \<noteq> None \<and> \<not> is_header_done then
            (case subtitle_re line of
               None \<Rightarrow> Inl AttributeError
             | Some inner \<Rightarrow>
                 Inr (Some (Paragraph (md_inline inner) Subtitle),
                      i + 1, is_header_done, current_section))
          else if italic_re line then
            Inr (Some (Paragraph (strip (strip_chars line ''*'')) Italic_label),
                 i + 1, is_header_done, current_section)
          else if startswith line ''- '' then
            (case bullet_continuation lines i (strip (drop 2 line)) of
               Inl e \<Rightarrow> Inl e
             | Inr (i', text) \<Rightarrow>
                 Inr (Some (Paragraph (''&#8226; &nbsp;'' @ md_inline text) Bullet),
                      i' + 1, is_header_done, current_section))
          else if CHR ''|'' \<in> set line \<and> CHR ''@'' \<in> set line then
            Inr (Some (Paragraph
                         (replace (re_sub link_re contact_repl line) (CHR ''|'') ''&nbsp;|&nbsp;'')
                         Contact),
                 i + 1, is_header_done, current_section)
          else if (case current_section of
                     None \<Rightarrow> False
                   | Some sec \<Rightarrow> sec \<noteq> [] \<and> contains ''expertise'' (lower sec))
                  \<and> contains ''**'' line then
            Inr (Some (Paragraph (md_inline line) Skills),
                 i + 1, is_header_done, current_section)
          else
            (case body_continuation lines i line of
               Inl e \<Rightarrow> Inl e
             | Inr (i', para_text) \<Rightarrow>
                 Inr (Some (Paragraph (md_inline para_text) Body),
                      i' + 1, is_header_done, current_section))))\<close>

lemma getitem_in_range [simp]: "i < length xs \<Longrightarrow> getitem xs i = Inr (xs ! i)"
  by (simp add: getitem_def)

declare bullet_continuation.simps [simp del] body_continuation.simps [simp del]

text \<open>
  The tests of the two inner loops, as predicates on the next line, and the text that a run
  of absorbed lines adds. Each inner loop takes the longest run of lines that pass its
  test; the main loop terminates because every turn moves the cursor forward.
\<close>

definition bullet_absorbs :: "string \<Rightarrow> bool" where
  "bullet_absorbs nxt = (startswith nxt ''  '' \<and> \<not> startswith (strip nxt) ''- '')"

definition body_absorbs :: "string \<Rightarrow> bool" where
  "body_absorbs nxt =
     (strip nxt \<noteq> [] \<and> \<not> startswith nxt ''#'' \<and> \<not> startswith nxt ''- ''
      \<and> \<not> rule_re nxt \<and> \<not> startswith nxt ''**'')"

definition joined :: "string list \<Rightarrow> string" where
  "joined ls = concat (map (\<lambda>l. '' '' @ strip l) ls)"

lemma bullet_continuation_stop:
  "\<not> (i + 1 < length lines \<and> bullet_absorbs (lines ! (i + 1))) \<Longrightarrow>
   bullet_continuation lines i acc = Inr (i, acc)"
  by (subst bullet_continuation.simps) (auto simp add: bullet_absorbs_def)

lemma bullet_continuation_go:
  "i + 1 < length lines \<Longrightarrow> bullet_absorbs (lines ! (i + 1)) \<Longrightarrow>
   bullet_continuation lines i acc =
     bullet_continuation lines (i + 1) (acc @ '' '' @ strip (lines ! (i + 1)))"
  by (subst bullet_continuation.simps) (simp add: bullet_absorbs_def)

lemma body_continuation_stop:
  "\<not> (i + 1 < length lines \<and> body_absorbs (lines ! (i + 1))) \<Longrightarrow>
   body_continuation lines i acc = Inr (i, acc)"
  by (subst body_continuation.simps) (auto simp add: body_absorbs_def)

lemma body_continuation_go:
  "i + 1 < length lines \<Longrightarrow> body_absorbs (lines ! (i + 1)) \<Longrightarrow>
   body_continuation lines i acc =
     body_continuation lines (i + 1) (acc @ '' '' @ strip (lines ! (i + 1)))"
  by (subst body_continuation.simps) (simp add: body_absorbs_def)

lemma bullet_continuation_eq:
  "bullet_continuation lines i acc =
     Inr (i + length (takeWhile bullet_absorbs (drop (i + 1) lines)),
          acc @ joined (takeWhile bullet_absorbs (drop (i + 1) lines)))"
proof (induction "length lines - i" arbitrary: i acc)
  case 0
  then show ?case
    by (simp add: bullet_continuation_stop joined_def)
next
  case (Suc n)
  show ?case
  proof (cases "i + 1 < length lines \<and> bullet_absorbs (lines ! (i + 1))")
    case False
    then have "takeWhile bullet_absorbs (drop (i + 1) lines) = []"
      by (cases "i + 1 < length lines") (auto simp: Cons_nth_drop_Suc[symmetric])
    with False show ?thesis
      by (simp add: bullet_continuation_stop joined_def)
  next
    case True
    then have d: "drop (Suc i) lines = lines ! Suc i # drop (Suc (Suc i)) lines"
      by (simp add: Cons_nth_drop_Suc)
    have "n = length lines - (i + 1)"
      using Suc.hyps(2) by simp
    from Suc.hyps(1)[OF this] True show ?thesis
      by (simp add: bullet_continuation_go d joined_def)
  qed
qed

lemma body_continuation_eq:
  "body_continuation lines i acc =
     Inr (i + length (takeWhile body_absorbs (drop (i + 1) lines)),
          acc @ joined (takeWhile body_absorbs (drop (i + 1) lines)))"
proof (induction "length lines - i" arbitrary: i acc)
  case 0
  then show ?case
    by (simp add: body_continuation_stop joined_def)
next
  case (Suc n)
  show ?case
  proof (cases "i + 1 < length lines \<and> body_absorbs (lines ! (i + 1))")
    case False
    then have "takeWhile body_absorbs (drop (i + 1) lines) = []"
      by (cases "i + 1 < length lines") (auto simp: Cons_nth_drop_Suc[symmetric])
    with False show ?thesis
      by (simp add: body_continuation_stop joined_def)
  next
    case True
    then have d: "drop (Suc i) lines = lines ! Suc i # drop (Suc (Suc i)) lines"
      by (simp add: Cons_nth_drop_Suc)
    have "n = length lines - (i + 1)"
      using Suc.hyps(2) by simp
    from Suc.hyps(1)[OF this] True show ?thesis
      by (simp add: body_continuation_go d joined_def)
  qed
qed

lemma step_advances:
  "step lines (i, h, cs) = Inr (emitted, i', h', cs') \<Longrightarrow> i < i'"
  by (simp add: step_def Let_def getitem_def bullet_continuation_eq body_continuation_eq
      split: if_split_asm option.split_asm)

function parse_loop :: "string list \<Rightarrow> cursor \<Rightarrow> flowable list \<Rightarrow> error + flowable list" where
  \<comment> \<open>the main loop; the story only grows at its end\<close>
  "parse_loop lines (i, is_header_done, current_section) story =
     (if i < length lines
      then (case step lines (i, is_header_done, current_section) of
              Inl e \<Rightarrow> Inl e
            | Inr (emitted, cur') \<Rightarrow>
                parse_loop lines cur' (story @ (case emitted of None \<Rightarrow> [] | Some f \<Rightarrow> [f])))
      else Inr story)"
  by pat_completeness auto
termination
proof (relation "measure (\<lambda>(lines, (i, h, cs), story). length lines - i)")
  show "wf (measure (\<lambda>(lines, (i, h, cs), story). length lines - i))"
    by simp
next
  fix lines :: "string list" and i is_header_done current_section and story :: "flowable list"
    and x emitted and cur' :: cursor
  assume "i < length lines"
    and "step lines (i, is_header_done, current_section) = Inr x"
    and "(emitted, cur') = x"
  then have "i < fst cur'"
    using step_advances[of lines i is_header_done current_section emitted "fst cur'"
        "fst (snd cur')" "snd (snd cur')"]
    by simp
  with \<open>i < length lines\<close>
  show "((lines, cur', story @ (case emitted of None \<Rightarrow> [] | Some f \<Rightarrow> [f])),
         (lines, (i, is_header_done, current_section), story))
        \<in> measure (\<lambda>(lines, (i, h, cs), story). length lines - i)"
    by (cases cur') auto
qed

declare parse_loop.simps [simp del]

definition parse_resume_md :: "string \<Rightarrow> error + flowable list" where
  \<comment> \<open>the styles are build_styles(), which has every key the classifier looks up\<close>
  "parse_resume_md md_text = parse_loop (split md_text (CHR 0x0A)) (0, False, None) []"

text \<open>
  The turns of the main loop: the cursor each turn starts from and the flowable it appends.
  This list is not computed by the program; it is what the statements about the loop speak of.
\<close>

function turns :: "string list \<Rightarrow> cursor \<Rightarrow> (cursor \<times> flowable option) list" where
  "turns lines (i, is_header_done, current_section) =
     (if i < length lines
      then (case step lines (i, is_header_done, current_section) of
              Inl e \<Rightarrow> []
            | Inr (emitted, cur') \<Rightarrow>
                ((i, is_header_done, current_section), emitted) # turns lines cur')
      else [])"
  by pat_completeness auto
termination
proof (relation "measure (\<lambda>(lines, (i, h, cs)). length lines - i)")
  show "wf (measure (\<lambda>(lines, (i, h, cs)). length lines - i))"
    by simp
next
  fix lines :: "string list" and i is_header_done current_section
    and x emitted and cur' :: cursor
  assume "i < length lines"
    and "step lines (i, is_header_done, current_section) = Inr x"
    and "(emitted, cur') = x"
  then have "i < fst cur'"
    using step_advances[of lines i is_header_done current_section emitted "fst cur'"
        "fst (snd cur')" "snd (snd cur')"]
    by simp
  with \<open>i < length lines\<close>
  show "((lines, cur'), (lines, (i, is_header_done, current_section)))
        \<in> measure (\<lambda>(lines, (i, h, cs)). length lines - i)"
    by (cases cur') auto
qed

declare turns.simps [simp del]

section \<open>The program\<close>










section \<open>Notions used in the statements\<close>






definition absorbable :: "string \<Rightarrow> bool" where
  "absorbable l = (bullet_absorbs l \<or> body_absorbs l)"

definition entity_follows :: "string \<Rightarrow> bool" where
  "entity_follows cs =
     (startswith cs ''amp;'' \<or> startswith cs ''lt;'' \<or> startswith cs ''gt;''
      \<or> startswith cs ''quot;'' \<or> startswith cs ''#'')"

abbreviation escape_amp :: "string \<Rightarrow> string" where
  "escape_amp \<equiv> re_sub amp_re amp_repl"



definition rule_blocks :: "string list \<Rightarrow> (cursor \<times> flowable option) list \<Rightarrow> flowable option list" where
  \<comment> \<open>what the turns that start at a rule line emit\<close>
  "rule_blocks lines ts =
     map snd (filter (\<lambda>(c, emitted). rule_re (rstrip (lines ! fst c))) ts)"

section \<open>Facts about the strings and the loop\<close>

lemma startswith_simps [simp]:
  "startswith s [] = True"
  "startswith [] (c # p) = False"
  "startswith (a # s) (c # p) = (a = c \<and> startswith s p)"
  by (auto simp: startswith_def)

lemma isspace_newline [simp]: "isspace (CHR 0x0A)"
  by (simp add: isspace_def)

lemma last_rstrip: "rstrip s \<noteq> [] \<Longrightarrow> \<not> isspace (last (rstrip s))"
proof -
  assume "rstrip s \<noteq> []"
  then have ne: "dropWhile isspace (rev s) \<noteq> []"
    by (simp add: rstrip_def)
  then have "\<not> isspace (hd (dropWhile isspace (rev s)))"
    by (rule hd_dropWhile)
  with ne show ?thesis
    by (simp add: rstrip_def last_rev)
qed

lemma chomp_rstrip [simp]: "chomp (rstrip s) = rstrip s"
  using last_rstrip[of s] by (auto simp: chomp_def)

lemma step_unfold:
  \<open>i < length lines \<Longrightarrow> step lines (i, is_header_done, current_section) =
     (let line = rstrip (lines ! i) in
          if line = [] then Inr (None, i + 1, is_header_done, current_section)
          else if rule_re line then
            (if \<not> is_header_done
             then Inr (Some Thick_hr, i + 1, True, current_section)
             else Inr (Some Hr, i + 1, is_header_done, current_section))
          else if startswith line ''# '' \<and> \<not> startswith line ''## '' then
            Inr (Some (Paragraph (md_inline (strip (drop 2 line))) Name),
                 i + 1, is_header_done, current_section)
          else if startswith line ''## '' then
            Inr (Some (Paragraph (upper (strip (drop 3 line))) Section),
                 i + 1, is_header_done, Some (strip (drop 3 line)))
          else if startswith line ''### '' then
            Inr (Some (Paragraph (md_inline (strip (drop 4 line))) Role),
                 i + 1, is_header_done, current_section)
          else if company_re line \<and> CHR ''|'' \<in> set line then
            Inr (Some (Paragraph (md_inline line) Company),
                 i + 1, is_header_done, current_section)
          else if subtitle_re line \<noteq> None \<and> \<not> is_header_done then
            Inr (Some (Paragraph (md_inline (the (subtitle_re line))) Subtitle),
                      i + 1, is_header_done, current_section)
          else if italic_re line then
            Inr (Some (Paragraph (strip (strip_chars line ''*'')) Italic_label),
                 i + 1, is_header_done, current_section)
          else if startswith line ''- '' then
                 Inr (Some (Paragraph (''&#8226; &nbsp;'' @ md_inline (strip (drop 2 line)
                     @ joined (takeWhile bullet_absorbs (drop (i + 1) lines)))) Bullet),
                      i + length (takeWhile bullet_absorbs (drop (i + 1) lines)) + 1, is_header_done, current_section)
          else if CHR ''|'' \<in> set line \<and> CHR ''@'' \<in> set line then
            Inr (Some (Paragraph
                         (replace (re_sub link_re contact_repl line) (CHR ''|'') ''&nbsp;|&nbsp;'')
                         Contact),
                 i + 1, is_header_done, current_section)
          else if (case current_section of
                     None \<Rightarrow> False
                   | Some sec \<Rightarrow> sec \<noteq> [] \<and> contains ''expertise'' (lower sec))
                  \<and> contains ''**'' line then
            Inr (Some (Paragraph (md_inline line) Skills),
                 i + 1, is_header_done, current_section)
          else
                 Inr (Some (Paragraph (md_inline (line @ joined (takeWhile body_absorbs (drop (i + 1) lines)))) Body),
                      i + length (takeWhile body_absorbs (drop (i + 1) lines)) + 1, is_header_done, current_section))\<close>
  by (auto simp add: step_def Let_def bullet_continuation_eq body_continuation_eq)








lemma takeWhile_run:
  assumes "i < j" and "j < i + length (takeWhile P (drop (i + 1) lines)) + 1"
  shows "P (lines ! j)"
proof -
  let ?xs = "drop (i + 1) lines"
  have k: "j - (i + 1) < length (takeWhile P ?xs)"
    using assms by simp
  then have "takeWhile P ?xs ! (j - (i + 1)) \<in> set (takeWhile P ?xs)"
    by (rule nth_mem)
  then have "P (takeWhile P ?xs ! (j - (i + 1)))"
    by (rule set_takeWhileD[THEN conjunct2])
  moreover have "takeWhile P ?xs ! (j - (i + 1)) = ?xs ! (j - (i + 1))"
    using k by (rule takeWhile_nth)
  moreover have "j - (i + 1) < length ?xs"
    using k length_takeWhile_le[of P ?xs] by linarith
  then have "?xs ! (j - (i + 1)) = lines ! j"
    using assms(1) by simp
  ultimately show ?thesis by simp
qed

lemma takeWhile_run_le:
  "i < length lines \<Longrightarrow> i + length (takeWhile P (drop (i + 1) lines)) + 1 \<le> length lines"
  using length_takeWhile_le[of P "drop (i + 1) lines"] by simp

lemma step_no_error:
  "i < length lines \<Longrightarrow> step lines (i, h, cs) \<noteq> Inl e"
  by (simp add: step_unfold Let_def)

lemma step_exists:
  "i < length lines \<Longrightarrow> \<exists>r. step lines (i, h, cs) = Inr r"
  using step_no_error[of i lines h cs] by (cases "step lines (i, h, cs)") auto

lemma step_next:
  "step lines (i, h, cs) = Inr (emitted, i', h', cs') \<Longrightarrow>
     i' = i + 1 \<or> i' = i + length (takeWhile bullet_absorbs (drop (i + 1) lines)) + 1
     \<or> i' = i + length (takeWhile body_absorbs (drop (i + 1) lines)) + 1"
  by (simp add: step_def Let_def getitem_def bullet_continuation_eq body_continuation_eq
      split: if_split_asm option.split_asm)

lemma step_blank:
  "i < length lines \<Longrightarrow> step lines (i, h, cs) = Inr (emitted, i', h', cs') \<Longrightarrow>
     (emitted = None) = (rstrip (lines ! i) = [])"
  by (auto simp add: step_def Let_def bullet_continuation_eq body_continuation_eq
      split: if_split_asm option.split_asm)

lemma step_total:
  assumes "i < length lines"
  shows "\<exists>emitted i' h' cs'. step lines (i, h, cs) = Inr (emitted, i', h', cs')
           \<and> i < i' \<and> i' \<le> length lines
           \<and> (emitted = None) = (rstrip (lines ! i) = [])
           \<and> (\<forall>j. i < j \<and> j < i' \<longrightarrow> absorbable (lines ! j))"
proof -
  from step_exists[OF assms] obtain emitted i' h' cs'
    where s: "step lines (i, h, cs) = Inr (emitted, i', h', cs')"
    by (metis prod_cases4)
  from step_next[OF s] have "i < i'" "i' \<le> length lines"
    using takeWhile_run_le[OF assms, of bullet_absorbs] takeWhile_run_le[OF assms, of body_absorbs]
    by auto
  moreover have "absorbable (lines ! j)" if "i < j" "j < i'" for j
    using step_next[OF s] that takeWhile_run[of i j bullet_absorbs lines]
      takeWhile_run[of i j body_absorbs lines]
    by (auto simp: absorbable_def)
  ultimately show ?thesis
    using s step_blank[OF assms s] by blast
qed

lemma turns_Nil: "\<not> i < length lines \<Longrightarrow> turns lines (i, h, cs) = []"
  by (subst turns.simps) simp

lemma turns_Cons:
  "i < length lines \<Longrightarrow> step lines (i, h, cs) = Inr (emitted, cur') \<Longrightarrow>
   turns lines (i, h, cs) = ((i, h, cs), emitted) # turns lines cur'"
  by (subst turns.simps) simp



lemma cursor_induct [case_names turn]:
  assumes "\<And>i h cs. (\<And>emitted i' h' cs'. i < length lines \<Longrightarrow>
              step lines (i, h, cs) = Inr (emitted, i', h', cs') \<Longrightarrow> P (i', h', cs'))
            \<Longrightarrow> P (i, h, cs)"
  shows "P cur"
proof (induction "length lines - fst cur" arbitrary: cur rule: less_induct)
  case less
  obtain i h cs where cur: "cur = (i, h, cs)"
    by (cases cur) auto
  show ?case
    unfolding cur
  proof (rule assms)
    fix emitted i' h' cs'
    assume "i < length lines" and s: "step lines (i, h, cs) = Inr (emitted, i', h', cs')"
    with step_advances[OF s] have "length lines - fst (i', h', cs') < length lines - fst cur"
      by (simp add: cur)
    then show "P (i', h', cs')"
      by (rule less)
  qed
qed






lemma turns_cover:
  "fst cur \<le> j \<Longrightarrow> j < length lines \<Longrightarrow> \<not> absorbable (lines ! j) \<Longrightarrow>
     \<exists>h cs emitted. ((j, h, cs), emitted) \<in> set (turns lines cur)"
proof (induction cur rule: cursor_induct[where lines = lines])
  case (turn i h cs)
  from turn.prems have lt: "i < length lines"
    by simp
  from step_total[OF lt, of h cs] obtain e i' h' cs'
    where s: "step lines (i, h, cs) = Inr (e, i', h', cs')"
      and run: "\<forall>k. i < k \<and> k < i' \<longrightarrow> absorbable (lines ! k)"
    by blast
  show ?case
  proof (cases "j = i")
    case True
    then show ?thesis
      by (auto simp: turns_Cons[OF lt s])
  next
    case False
    with turn.prems run have "i' \<le> j"
      by (metis fst_conv le_neq_implies_less not_le_imp_less)
    with turn.IH[OF lt s] turn.prems show ?thesis
      by (auto simp: turns_Cons[OF lt s])
  qed
qed

section \<open>The missing input file\<close>




section \<open>Horizontal rules\<close>

lemma step_rule:
  assumes "i < length lines" and "rule_re (rstrip (lines ! i))"
  shows "step lines (i, h, cs) = Inr (Some (if h then Hr else Thick_hr), i + 1, True, cs)"
proof -
  from assms(2) have "rstrip (lines ! i) \<noteq> []"
    by (auto simp: rule_re_def)
  with assms(2) show ?thesis
    unfolding step_unfold[OF assms(1)] Let_def by simp
qed

lemma header_done_stays:
  "step lines (i, True, cs) = Inr (emitted, i', h', cs') \<Longrightarrow> h'"
  by (simp add: step_def Let_def getitem_def bullet_continuation_eq body_continuation_eq
      split: if_split_asm option.split_asm)

lemma raw_rule_line_starts_turn:
  assumes "j < length lines" and "rule_re (lines ! j)"
  shows "\<exists>h cs emitted. ((j, h, cs), emitted) \<in> set (turns lines (0, False, None))"
proof -
  from assms(2) obtain c cs where l: "lines ! j = c # cs" "cs \<noteq> []"
    by (cases "lines ! j"; cases "tl (lines ! j)")
       (auto simp: rule_re_def chomp_def split: if_splits)
  with assms(2) have "c = CHR ''-''"
    by (auto simp: rule_re_def chomp_def split: if_splits)
  with l have "\<not> startswith (lines ! j) ''  ''"
    by simp
  with assms(2) have "\<not> absorbable (lines ! j)"
    by (simp add: absorbable_def bullet_absorbs_def body_absorbs_def)
  with turns_cover[of "(0, False, None)" j lines] assms(1) show ?thesis
    by simp
qed

lemma step_flag:
  assumes "i < length lines" and "step lines (i, h, cs) = Inr (emitted, i', h', cs')"
  shows "h' = (h \<or> rule_re (rstrip (lines ! i)))"
proof (cases "rule_re (rstrip (lines ! i))")
  case True
  with assms step_rule[OF assms(1) True, of h cs] show ?thesis
    by simp
next
  case False
  with assms(2) show ?thesis
    unfolding step_unfold[OF assms(1)] Let_def
    by (simp split: if_split_asm)
qed

lemma rule_blocks_turns:
  "rule_blocks lines (turns lines (i, h, cs)) =
     (let n = length (rule_blocks lines (turns lines (i, h, cs)))
      in if h then replicate n (Some Hr)
         else if n = 0 then [] else Some Thick_hr # replicate (n - 1) (Some Hr))"
proof (induction "(i, h, cs)" arbitrary: i h cs rule: cursor_induct[where lines = lines])
  case (turn i h cs)
  show ?case
  proof (cases "i < length lines")
    case False
    then show ?thesis
      by (simp add: turns_Nil rule_blocks_def)
  next
    case True
    from step_exists[OF True] obtain e i1 h1 cs1
      where s: "step lines (i, h, cs) = Inr (e, i1, h1, cs1)"
      by (metis prod_cases4)
    note ih = turn[OF True s]
    note fl = step_flag[OF True s]
    let ?rest = "rule_blocks lines (turns lines (i1, h1, cs1))"
    show ?thesis
    proof (cases "rule_re (rstrip (lines ! i))")
      case False
      then have "rule_blocks lines (turns lines (i, h, cs)) = ?rest"
        by (simp add: turns_Cons[OF True s] rule_blocks_def)
      moreover from False fl have "h1 = h"
        by simp
      ultimately show ?thesis
        using ih by simp
    next
      case rule: True
      from step_rule[OF True rule, of h cs] s have e: "e = Some (if h then Hr else Thick_hr)"
        by simp
      from rule fl have h1: "h1"
        by simp
      define m where "m = length ?rest"
      from ih h1 have "?rest = replicate m (Some Hr)"
        by (simp add: Let_def m_def)
      then have "rule_blocks lines (turns lines (i, h, cs)) = e # replicate m (Some Hr)"
        using rule by (simp add: turns_Cons[OF True s] rule_blocks_def)
      then show ?thesis
        using e by (simp add: Let_def)
    qed
  qed
qed

text \<open>
  C2. A rule line that the loop reaches gives the thick rule when the header is still open,
  and closes it; after that every rule line the loop reaches gives the thin rule, and the
  flag stays set. But the loop does not reach every rule line: the lookahead of the
  default rule tests the next line as it stands, not trimmed, so a rule line with
  trailing whitespace that follows a paragraph is absorbed into the Body block and gives
  no rule at all, and the next rule line is taken for the first.
\<close>

theorem rule_line_absorbed_by_body:
  "rule_re (rstrip ''--- '')
   \<and> parse_resume_md ''--- '' = Inr [Thick_hr]
   \<and> parse_resume_md ''Summary\<newline>---'' = Inr [Paragraph ''Summary'' Body, Thick_hr]
   \<and> parse_resume_md ''Summary\<newline>--- '' = Inr [Paragraph ''Summary ---'' Body]
   \<and> parse_resume_md ''Summary\<newline>--- \<newline>\<newline>---'' =
       Inr [Paragraph ''Summary ---'' Body, Thick_hr]
   \<and> parse_resume_md ''---\<newline>Summary\<newline>--- '' =
       Inr [Thick_hr, Paragraph ''Summary ---'' Body]"
  by code_simp

section \<open>The inline normalizer: order of the rewrites\<close>

text \<open>
  C3. The normalizer rewrites links first, then bold, then italic, and escapes ampersands
  last. On \<open>**Bold** and *italic* and [link](http://x)\<close> it gives the bold \<open>Bold\<close>, the
  italic \<open>italic\<close> and the accent-coloured link \<open>link\<close> to \<open>http://x\<close>, in that order,
  with the text between them unchanged.
\<close>

theorem md_inline_order:
  \<open>md_inline t =
     re_sub amp_re amp_repl
       (re_sub em_re em_repl (re_sub bold_re bold_repl (re_sub link_re link_repl t)))
   \<and> md_inline ''**Bold** and *italic* and [link](http://x)'' =
       ''<b>Bold</b> and <i>italic</i> and <a href="http://x" color="#2d6a8f">link</a>''\<close>
proof
  show "md_inline t =
     re_sub amp_re amp_repl
       (re_sub em_re em_repl (re_sub bold_re bold_repl (re_sub link_re link_repl t)))"
    by (simp add: md_inline_def)
  show \<open>md_inline ''**Bold** and *italic* and [link](http://x)'' =
       ''<b>Bold</b> and <i>italic</i> and <a href="http://x" color="#2d6a8f">link</a>''\<close>
    by code_simp
qed

section \<open>Normalizing twice\<close>

lemma escape_amp_Cons:
  "escape_amp (c # cs) =
     (if c = CHR ''&'' \<and> \<not> entity_follows cs then ''&amp;'' @ escape_amp cs
      else c # escape_amp cs)"
  by (simp add: amp_re_def amp_repl_def entity_follows_def)

lemma escape_amp_plain:
  "CHR ''&'' \<notin> set p \<Longrightarrow> escape_amp (p @ r) = p @ escape_amp r"
  by (induction p) (auto simp add: escape_amp_Cons simp del: re_sub.simps)

lemma startswith_split: "startswith cs p \<Longrightarrow> \<exists>r. cs = p @ r"
  unfolding startswith_def by (metis append_take_drop_id)

lemma startswith_prefix [simp]: "startswith (p @ r) p"
  by (simp add: startswith_def)

lemma escape_amp_keeps_prefix:
  assumes "startswith cs p" and "CHR ''&'' \<notin> set p"
  shows "startswith (escape_amp cs) p"
proof -
  from startswith_split[OF assms(1)] obtain r where "cs = p @ r" ..
  with assms(2) show ?thesis
    by (simp add: escape_amp_plain del: re_sub.simps)
qed

lemma entity_follows_escape:
  "entity_follows cs \<Longrightarrow> entity_follows (escape_amp cs)"
  unfolding entity_follows_def
  using escape_amp_keeps_prefix[of cs "''amp;''"] escape_amp_keeps_prefix[of cs "''lt;''"]
    escape_amp_keeps_prefix[of cs "''gt;''"] escape_amp_keeps_prefix[of cs "''quot;''"]
    escape_amp_keeps_prefix[of cs "''#''"]
  by auto

lemma escape_amp_idem: "escape_amp (escape_amp s) = escape_amp s"
proof (induction s)
  case Nil
  show ?case by simp
next
  case (Cons c cs)
  show ?case
  proof (cases "c = CHR ''&'' \<and> \<not> entity_follows cs")
    case True
    have "entity_follows (''amp;'' @ escape_amp cs)"
      by (simp add: entity_follows_def)
    then have "escape_amp (''&amp;'' @ escape_amp cs) = ''&amp;'' @ escape_amp (escape_amp cs)"
      using escape_amp_plain[of "''amp;''" "escape_amp cs"]
      by (simp add: escape_amp_Cons del: re_sub.simps)
    with True Cons show ?thesis
      by (simp add: escape_amp_Cons del: re_sub.simps)
  next
    case False
    then have "\<not> (c = CHR ''&'' \<and> \<not> entity_follows (escape_amp cs))"
      using entity_follows_escape by blast
    with False Cons show ?thesis
      by (simp add: escape_amp_Cons del: re_sub.simps)
  qed
qed

lemma re_sub_no_match:
  "(\<And>r. r \<noteq> [] \<Longrightarrow> hd r \<noteq> k \<Longrightarrow> pat r = None) \<Longrightarrow> k \<notin> set s \<Longrightarrow> re_sub pat repl s = s"
  by (induction s) auto

lemma link_needs_bracket: "hd r \<noteq> CHR ''['' \<Longrightarrow> r \<noteq> [] \<Longrightarrow> link_re r = None"
  by (cases r) (simp_all add: link_re_def)

lemma bold_needs_star: "hd r \<noteq> CHR ''*'' \<Longrightarrow> r \<noteq> [] \<Longrightarrow> bold_re r = None"
  by (cases r) (simp_all add: bold_re_def)

lemma em_needs_star: "hd r \<noteq> CHR ''*'' \<Longrightarrow> r \<noteq> [] \<Longrightarrow> em_re r = None"
  by (cases r) (simp_all add: em_re_def)

lemma md_inline_plain:
  assumes "CHR ''*'' \<notin> set t" and "CHR ''['' \<notin> set t"
  shows "md_inline t = escape_amp t"
proof -
  have "re_sub link_re link_repl t = t"
    using assms(2) by (intro re_sub_no_match[where k = "CHR ''[''"] link_needs_bracket)
  moreover have "re_sub bold_re bold_repl t = t"
    using assms(1) by (intro re_sub_no_match[where k = "CHR ''*''"] bold_needs_star)
  moreover have "re_sub em_re em_repl t = t"
    using assms(1) by (intro re_sub_no_match[where k = "CHR ''*''"] em_needs_star)
  ultimately show ?thesis
    by (simp add: md_inline_def)
qed

text \<open>
  C4 does not hold as stated. Normalizing a second time can change the text: an asterisk
  or an opening bracket that the first pass left in place can pair up with another one in
  the second pass.
\<close>

theorem md_inline_twice_counterexample:
  "md_inline (md_inline ''**a*b*'') \<noteq> md_inline ''**a*b*''
   \<and> md_inline (md_inline ''[[a](b)](c)'') \<noteq> md_inline ''[[a](b)](c)''"
  by code_simp

text \<open>
  C4, as the code has it. When the output of the normalizer holds no asterisk and no
  opening bracket, normalizing it again returns it unchanged; the escaping of ampersands
  alone is idempotent on every string, so no entity is escaped twice.
\<close>

theorem md_inline_fixed_point:
  "(t = md_inline s \<and> CHR ''*'' \<notin> set t \<and> CHR ''['' \<notin> set t \<longrightarrow> md_inline t = t)
   \<and> re_sub amp_re amp_repl (re_sub amp_re amp_repl u) = re_sub amp_re amp_repl u"
proof (intro conjI impI)
  assume a: "t = md_inline s \<and> CHR ''*'' \<notin> set t \<and> CHR ''['' \<notin> set t"
  then have "md_inline t = escape_amp t"
    by (intro md_inline_plain) blast+
  moreover have "escape_amp (md_inline s) = md_inline s"
    unfolding md_inline_def by (rule escape_amp_idem)
  ultimately show "md_inline t = t"
    using a by (simp del: re_sub.simps)
next
  show "escape_amp (escape_amp u) = escape_amp u"
    by (rule escape_amp_idem)
qed

theorem md_inline_fixed_point_witness:
  \<open>''AT&amp;T <b>x</b> &amp; <a href="u?a=1&amp;b=2" color="#2d6a8f">l</a>''
      = md_inline ''AT&T **x** &amp; [l](u?a=1&b=2)''
   \<and> CHR ''*'' \<notin> set ''AT&amp;T <b>x</b> &amp; <a href="u?a=1&amp;b=2" color="#2d6a8f">l</a>''
   \<and> CHR ''['' \<notin> set ''AT&amp;T <b>x</b> &amp; <a href="u?a=1&amp;b=2" color="#2d6a8f">l</a>''
   \<and> md_inline ''AT&amp;T <b>x</b> &amp; <a href="u?a=1&amp;b=2" color="#2d6a8f">l</a>''
      = ''AT&amp;T <b>x</b> &amp; <a href="u?a=1&amp;b=2" color="#2d6a8f">l</a>''\<close>
proof -
  let ?t = \<open>''AT&amp;T <b>x</b> &amp; <a href="u?a=1&amp;b=2" color="#2d6a8f">l</a>''\<close>
  have a: "?t = md_inline ''AT&T **x** &amp; [l](u?a=1&b=2)''"
    by code_simp
  have b: "CHR ''*'' \<notin> set ?t" "CHR ''['' \<notin> set ?t"
    by simp_all
  with a md_inline_fixed_point[of ?t "''AT&T **x** &amp; [l](u?a=1&b=2)''"]
  have "md_inline ?t = ?t"
    by blast
  with a b show ?thesis
    by (intro conjI)
qed

section \<open>Totality and document order\<close>








section \<open>Bullets\<close>






lemma isspace_blank [simp]: "isspace (CHR '' '')"
  by (simp add: isspace_def)

lemma not_isspace_hyphen [simp]: "\<not> isspace (CHR ''-'')"
  by (simp add: isspace_def)





section \<open>Body paragraphs\<close>





section \<open>Skills lines\<close>









section \<open>Blocks whose text is not normalized\<close>












end
